theory Spec2Isabelle
  imports Main "HOL-Library.Sublist"
begin

section \<open>Strings of the source language\<close>

text \<open>
  A Python \<open>str\<close> is modelled as a \<open>string\<close>: one \<open>char\<close> stands for one code point,
  so the model covers the code points below 256. The whitespace class is the one that
  \<open>str.strip\<close>, \<open>str.isspace\<close> and the pattern \<open>\s\<close> share in that range.
\<close>

definition whitespace :: "char list" where
  "whitespace = [CHR 0x09, CHR 0x0A, CHR 0x0B, CHR 0x0C, CHR 0x0D, CHR 0x1C, CHR 0x1D,
     CHR 0x1E, CHR 0x1F, CHR 0x20, CHR 0x85, CHR 0xA0]"

definition is_space :: "char \<Rightarrow> bool" where
  "is_space c = (c \<in> set whitespace)"

definition uppercase :: "char list" where
  "uppercase = ''ABCDEFGHIJKLMNOPQRSTUVWXYZ'' @ [CHR 0xC0, CHR 0xC1, CHR 0xC2, CHR 0xC3,
     CHR 0xC4, CHR 0xC5, CHR 0xC6, CHR 0xC7, CHR 0xC8, CHR 0xC9, CHR 0xCA, CHR 0xCB, CHR 0xCC,
     CHR 0xCD, CHR 0xCE, CHR 0xCF, CHR 0xD0, CHR 0xD1, CHR 0xD2, CHR 0xD3, CHR 0xD4, CHR 0xD5,
     CHR 0xD6, CHR 0xD8, CHR 0xD9, CHR 0xDA, CHR 0xDB, CHR 0xDC, CHR 0xDD, CHR 0xDE]"

definition lowercase :: "char list" where
  "lowercase = ''abcdefghijklmnopqrstuvwxyz'' @ [CHR 0xE0, CHR 0xE1, CHR 0xE2, CHR 0xE3,
     CHR 0xE4, CHR 0xE5, CHR 0xE6, CHR 0xE7, CHR 0xE8, CHR 0xE9, CHR 0xEA, CHR 0xEB, CHR 0xEC,
     CHR 0xED, CHR 0xEE, CHR 0xEF, CHR 0xF0, CHR 0xF1, CHR 0xF2, CHR 0xF3, CHR 0xF4, CHR 0xF5,
     CHR 0xF6, CHR 0xF8, CHR 0xF9, CHR 0xFA, CHR 0xFB, CHR 0xFC, CHR 0xFD, CHR 0xFE]"

definition to_lower :: "char \<Rightarrow> char" where
  "to_lower c = (case map_of (zip uppercase lowercase) c of None \<Rightarrow> c | Some l \<Rightarrow> l)"

text \<open>\<open>s.lower()\<close>\<close>

definition lower :: "string \<Rightarrow> string" where
  "lower s = map to_lower s"

text \<open>\<open>sub in s\<close>\<close>

fun contains :: "string \<Rightarrow> string \<Rightarrow> bool" where
  "contains sub [] = (sub = [])"
| "contains sub (c # cs) = (prefix sub (c # cs) \<or> contains sub cs)"

text \<open>\<open>any(x in s for x in subs)\<close>\<close>

definition contains_any :: "string list \<Rightarrow> string \<Rightarrow> bool" where
  "contains_any subs s = list_ex (\<lambda>x. contains x s) subs"

text \<open>\<open>s.strip()\<close>\<close>

definition strip :: "string \<Rightarrow> string" where
  "strip s = rev (dropWhile is_space (rev (dropWhile is_space s)))"

text \<open>\<open>s.isspace()\<close>: false on the empty string.\<close>

definition isspace :: "string \<Rightarrow> bool" where
  "isspace s = (s \<noteq> [] \<and> list_all is_space s)"

text \<open>\<open>int(ds)\<close> on a run of decimal digits, as matched by \<open>\d+\<close>.\<close>

definition digits :: "char list" where
  "digits = ''0123456789''"

definition is_digit :: "char \<Rightarrow> bool" where
  "is_digit c = (c \<in> set digits)"

definition digit_value :: "char \<Rightarrow> nat" where
  "digit_value c =
     (case map_of (zip digits [0, 1, 2, 3, 4, 5, 6, 7, 8, 9]) c of None \<Rightarrow> 0 | Some d \<Rightarrow> d)"

definition int_of_digits :: "string \<Rightarrow> nat" where
  "int_of_digits ds = foldl (\<lambda>a c. 10 * a + digit_value c) 0 ds"

text \<open>\<open>str(n)\<close> for a non-negative integer, and the format \<open>{n:03d}\<close>.\<close>

function str_nat :: "nat \<Rightarrow> string" where
  "str_nat n = (if n < 10 then [digits ! n] else str_nat (n div 10) @ [digits ! (n mod 10)])"
  by pat_completeness auto
termination
  by (relation "measure id") auto

declare str_nat.simps [simp del]

definition format_03d :: "nat \<Rightarrow> string" where
  "format_03d n = replicate (3 - length (str_nat n)) CHR ''0'' @ str_nat n"

section \<open>URL normalizer\<close>

text \<open>
  \<open>_get_high_res_image_url\<close>. The test of line 562 is \<open>size_pattern\<close>;
  \<open>url.split("=")[0]\<close> is the part of the URL before its first \<open>=\<close>.
\<close>

definition size_pattern :: "string \<Rightarrow> bool" where
  "size_pattern url = (contains ''googleusercontent.com'' url \<and>
     (contains ''=w'' url \<or> contains ''=s'' url \<or> contains ''=h'' url))"

definition base_url :: "string \<Rightarrow> string" where
  "base_url url = takeWhile (\<lambda>c. c \<noteq> CHR ''='') url"

definition get_high_res_image_url :: "string \<Rightarrow> string" where
  "get_high_res_image_url url =
     (if size_pattern url then base_url url @ ''=w2048-h2048'' else url)"

section \<open>Filter stage\<close>

text \<open>
  \<open>re.search(tag + r"(\d+)", url)\<close> and \<open>match.group(1)\<close>: the leftmost position where
  \<open>tag\<close> is followed by at least one digit, and the longest run of digits there; \<open>None\<close>
  when the pattern does not match.
\<close>

fun re_search_digits :: "string \<Rightarrow> string \<Rightarrow> string option" where
  "re_search_digits tag [] = None"
| "re_search_digits tag (c # cs) =
     (if prefix tag (c # cs) \<and> takeWhile is_digit (drop (length tag) (c # cs)) \<noteq> []
      then Some (takeWhile is_digit (drop (length tag) (c # cs)))
      else re_search_digits tag cs)"

text \<open>
  \<open>int(ds)\<close> on a run of digits. CPython 3.11 and later raise \<open>ValueError\<close> on a run of
  more than 4300 digits (\<open>None\<close>); earlier versions convert every run, and agree with
  this function on the runs of at most 4300 digits.
\<close>

definition max_str_digits :: nat where
  "max_str_digits = 4300"

definition python_int :: "string \<Rightarrow> nat option" where
  "python_int ds = (if length ds > max_str_digits then None else Some (int_of_digits ds))"

text \<open>
  The three \<open>continue\<close> guards of the loop of \<open>_filter_image_urls\<close>, in order. In the
  first, an exception of \<open>int\<close> is caught by \<open>except Exception: pass\<close> and the URL goes
  on to the next guard.
\<close>

definition too_small :: "string \<Rightarrow> bool" where
  "too_small url =
     (if contains ''=w'' url \<and> contains ''=h'' url then
        (case re_search_digits ''=w'' url of
           None \<Rightarrow> False
         | Some width_digits \<Rightarrow>
             (case re_search_digits ''=h'' url of
                None \<Rightarrow> False
              | Some height_digits \<Rightarrow>
                  (case python_int width_digits of
                     None \<Rightarrow> False
                   | Some width \<Rightarrow>
                       (case python_int height_digits of
                          None \<Rightarrow> False
                        | Some height \<Rightarrow> width < 100 \<or> height < 100))))
      else False)"

definition icon_hosts :: "string list" where
  "icon_hosts = [''maps.googleapis.com'', ''maps.gstatic.com'',
     ''googleusercontent.com/gadgets'', ''google.com/images'', ''gstatic.com/images'']"

definition image_extensions :: "string list" where
  "image_extensions = [''.jpg'', ''.jpeg'', ''.png'', ''.webp'', ''.gif'']"

definition non_image :: "string \<Rightarrow> bool" where
  "non_image url =
     (\<not> list_ex (\<lambda>ext. suffix ext (lower url)) image_extensions
      \<and> \<not> contains ''=w'' url \<and> \<not> contains ''=h'' url)"

definition keep_url :: "string \<Rightarrow> bool" where
  "keep_url url =
     (if too_small url then False
      else if contains_any icon_hosts url then False
      else if non_image url then False
      else True)"

text \<open>
  \<open>_filter_image_urls\<close>: the loop visits every member of the input set once and adds
  to the result set exactly the members that reach \<open>filtered_urls.add(url)\<close>.
\<close>

definition filter_image_urls :: "string set \<Rightarrow> string set" where
  "filter_image_urls urls = {url \<in> urls. keep_url url}"

text \<open>The same loop, written over the list in which the input set is iterated.\<close>

fun filter_loop :: "string list \<Rightarrow> string set \<Rightarrow> string set" where
  "filter_loop [] filtered_urls = filtered_urls"
| "filter_loop (url # rest) filtered_urls =
     (if keep_url url then filter_loop rest (insert url filtered_urls)
      else filter_loop rest filtered_urls)"

text \<open>
  The truncation of \<open>download_images_for_country\<close> (lines 212 to 214). The argument
  list is the filtered set in its iteration order, as \<open>list(image_urls)\<close> yields it.
\<close>

definition limit_images :: "int \<Rightarrow> string list \<Rightarrow> string list" where
  "limit_images max_images image_urls =
     (if max_images > 0 \<and> int (length image_urls) > max_images
      then take (nat max_images) image_urls else image_urls)"

section \<open>Filename sanitation\<close>

definition invalid_chars :: "char list" where
  "invalid_chars = [CHR 0x5C, CHR ''/'', CHR ''*'', CHR ''?'', CHR '':'', CHR 0x22,
     CHR ''<'', CHR ''>'', CHR ''|'']"

text \<open>\<open>re.sub(r'[\\/*?:"<>|]', "_", name)\<close>\<close>

definition replace_invalid :: "string \<Rightarrow> string" where
  "replace_invalid name = map (\<lambda>c. if c \<in> set invalid_chars then CHR ''_'' else c) name"

text \<open>\<open>re.sub(r'\s+', " ", s)\<close>\<close>

function collapse_whitespace :: "string \<Rightarrow> string" where
  "collapse_whitespace [] = []"
| "collapse_whitespace (c # cs) =
     (if is_space c then CHR '' '' # collapse_whitespace (dropWhile is_space cs)
      else c # collapse_whitespace cs)"
  by pat_completeness auto
termination
  by (relation "measure length") (auto simp: length_dropWhile_le less_Suc_eq_le)

definition truncate_name :: "string \<Rightarrow> string" where
  "truncate_name s = (if length s > 50 then take 47 s @ ''...'' else s)"

definition sanitize_filename :: "string \<Rightarrow> string" where
  "sanitize_filename name =
     (let sanitized = truncate_name (collapse_whitespace (replace_invalid name));
          sanitized = (if sanitized = [] \<or> isspace sanitized then ''unnamed_country''
                       else sanitized)
      in strip sanitized)"

text \<open>The value of \<open>sanitized\<close> at the \<open>return\<close> statement, before \<open>strip\<close>.\<close>

definition sanitized_pending :: "string \<Rightarrow> string" where
  "sanitized_pending name =
     (let sanitized = truncate_name (collapse_whitespace (replace_invalid name))
      in if sanitized = [] \<or> isspace sanitized then ''unnamed_country'' else sanitized)"

section \<open>Entity list\<close>

record country =
  country_id :: string
  country_name :: string

text \<open>\<open>line.split(':', 1)\<close>\<close>

definition split_colon_once :: "string \<Rightarrow> string list" where
  "split_colon_once line =
     (if CHR '':'' \<in> set line
      then [takeWhile (\<lambda>c. c \<noteq> CHR '':'') line, tl (dropWhile (\<lambda>c. c \<noteq> CHR '':'') line)]
      else [line])"

text \<open>
  The loop over the lines of \<open>get_countries_from_file\<close>. The state is the list of
  countries together with the list of lines reported by \<open>logger.warning\<close>.
\<close>

fun process_lines :: "string list \<Rightarrow> country list \<times> string list \<Rightarrow> country list \<times> string list" where
  "process_lines [] st = st"
| "process_lines (raw # rest) (countries, warnings) =
     (let line = strip raw in
      if line = [] then process_lines rest (countries, warnings)
      else
        (case split_colon_once line of
           [p0, p1] \<Rightarrow>
             process_lines rest
               (countries @ [\<lparr>country_id = strip p0, country_name = strip p1\<rparr>], warnings)
         | _ \<Rightarrow> process_lines rest (countries, warnings @ [line])))"

text \<open>
  \<open>get_countries_from_file\<close>. The argument is what reading the file gives: \<open>None\<close> when
  the file does not exist or reading it raises (the function then returns the empty
  list), otherwise the result of \<open>f.readlines()\<close>.
\<close>

definition get_countries_from_file :: "string list option \<Rightarrow> country list \<times> string list" where
  "get_countries_from_file file =
     (case file of None \<Rightarrow> ([], []) | Some lines \<Rightarrow> process_lines lines ([], []))"

section \<open>Recursive walk over parsed JSON\<close>

text \<open>
  A value as \<open>json.loads\<close> returns it. A \<open>dict\<close> is an association list in insertion
  order: \<open>key in d\<close> and \<open>d[key]\<close> are \<open>map_of\<close>, \<open>d.values()\<close> is \<open>map snd\<close>.
  Numbers are scalars that the walk never inspects.
\<close>

datatype json =
    JNull
  | JBool bool
  | JNumber int
  | JString string
  | JArray "json list"
  | JObject "(string \<times> json) list"

definition recognized_keys :: "string list" where
  "recognized_keys = [''image'', ''images'', ''photo'', ''photos'', ''thumbnail'',
     ''thumbnailUrl'', ''contentUrl'']"

definition json_extensions :: "string list" where
  "json_extensions = [''.jpg'', ''.jpeg'', ''.png'', ''.webp'']"

text \<open>The test applied to a string value (lines 520 and 528).\<close>

definition is_image_string :: "string \<Rightarrow> bool" where
  "is_image_string s =
     (prefix ''http'' s \<and> list_ex (\<lambda>ext. contains ext (lower s)) json_extensions)"

text \<open>
  \<open>json_adds j\<close> lists, in order, the arguments of the calls \<open>image_urls.add(...)\<close> that
  \<open>_extract_images_from_json_object(j, image_urls)\<close> makes.
\<close>

function json_adds :: "json \<Rightarrow> string list" where
  "json_adds (JObject kvs) =
     concat (map (\<lambda>key.
        case map_of kvs key of
          None \<Rightarrow> []
        | Some (JString s) \<Rightarrow> (if is_image_string s then [get_high_res_image_url s] else [])
        | Some (JArray items) \<Rightarrow>
            concat (map (\<lambda>item.
              case item of
                JString s \<Rightarrow> (if is_image_string s then [get_high_res_image_url s] else [])
              | JObject kvs' \<Rightarrow> json_adds (JObject kvs')
              | _ \<Rightarrow> []) items)
        | Some (JObject kvs') \<Rightarrow> json_adds (JObject kvs')
        | Some _ \<Rightarrow> []) recognized_keys)
     @ concat (map (\<lambda>value.
        case value of
          JObject kvs' \<Rightarrow> json_adds (JObject kvs')
        | JArray items \<Rightarrow> json_adds (JArray items)
        | _ \<Rightarrow> []) (map snd kvs))"
| "json_adds (JArray items) = concat (map json_adds items)"
| "json_adds JNull = []"
| "json_adds (JBool b) = []"
| "json_adds (JNumber n) = []"
| "json_adds (JString s) = []"
  by pat_completeness auto
termination
proof -
  have in_obj: "size v < size (JObject kvs)" if "(k, v) \<in> set kvs"
    for k v and kvs :: "(string \<times> json) list"
    using that by (induction kvs) auto
  have in_arr: "size v < size (JArray items)" if "v \<in> set items" for v items
    using that by (induction items) auto
  have in_obj_arr: "size v < size (JObject kvs)"
    if "(k, JArray items) \<in> set kvs" and "v \<in> set items"
    for k v items and kvs :: "(string \<times> json) list"
    using in_obj [OF that(1)] in_arr [OF that(2)] by simp
  show ?thesis
  proof (relation "measure size", goal_cases)
    case 1
    show ?case by simp
  next
    case (2 kvs key v items item kvs')
    then show ?case using in_obj_arr [of key items kvs item] by (auto dest!: map_of_SomeD)
  next
    case (3 kvs key v kvs')
    then show ?case using in_obj [of key v kvs] by (auto dest!: map_of_SomeD)
  next
    case (4 kvs v kvs')
    then show ?case using in_obj [of _ v kvs] by auto
  next
    case (5 kvs v items)
    then show ?case using in_obj [of _ v kvs] by auto
  next
    case (6 items item)
    then show ?case using in_arr [of item items] by simp
  qed
qed

declare json_adds.simps [simp del]

text \<open>\<open>_extract_images_from_json_object\<close>: the set after the call.\<close>

definition extract_images_from_json_object :: "json \<Rightarrow> string set \<Rightarrow> string set" where
  "extract_images_from_json_object json_data image_urls = image_urls \<union> set (json_adds json_data)"

text \<open>
  Nesting: \<open>nested_in sub j\<close> when \<open>sub\<close> is \<open>j\<close> itself or lies inside \<open>j\<close>, below
  mapping values (under any key) and list elements, at any depth.
\<close>

inductive nested_in :: "json \<Rightarrow> json \<Rightarrow> bool" where
  here: "nested_in j j"
| in_object: "(k, v) \<in> set kvs \<Longrightarrow> nested_in sub v \<Longrightarrow> nested_in sub (JObject kvs)"
| in_array: "v \<in> set items \<Longrightarrow> nested_in sub v \<Longrightarrow> nested_in sub (JArray items)"

text \<open>\<open>isinstance(value, (dict, list))\<close>\<close>

definition is_container :: "json \<Rightarrow> bool" where
  "is_container j = (case j of JObject kvs \<Rightarrow> True | JArray items \<Rightarrow> True | _ \<Rightarrow> False)"

text \<open>
  The string \<open>s\<close> occurs in \<open>j\<close> under a recognized key: some mapping nested in \<open>j\<close>
  holds \<open>s\<close> as the value of a recognized key, or as an element of a list that is the
  value of a recognized key.
\<close>

definition recognized_occurrence :: "json \<Rightarrow> string \<Rightarrow> bool" where
  "recognized_occurrence j s =
     (\<exists>kvs key. nested_in (JObject kvs) j \<and> key \<in> set recognized_keys
        \<and> (map_of kvs key = Some (JString s)
            \<or> (\<exists>items. map_of kvs key = Some (JArray items) \<and> JString s \<in> set items)))"

section \<open>Downloader and verifier\<close>

text \<open>
  The collaborators of \<open>_download_images\<close>. \<open>requests.get(url, stream=True, timeout=10)\<close>
  either raises (\<open>None\<close>) or returns a response; the body of a streamed response is read
  by \<open>iter_content\<close> only while the file is written, and that read can raise after
  delivering \<open>body\<close>. \<open>Image.open\<close> either raises (\<open>None\<close>) or identifies the image;
  \<open>img_save\<close> is what \<open>img.save(new_output_path)\<close> writes, \<open>None\<close> when it raises.
\<close>

record response =
  status_code :: nat
  content_type :: string
  body :: string
  stream_raises :: bool

record image =
  img_format :: "string option"
  img_width :: nat
  img_height :: nat
  img_save :: "string option"

record web =
  requests_get :: "string \<Rightarrow> response option"
  image_open :: "string \<Rightarrow> image option"

text \<open>The files on disk: a map from path to content.\<close>

type_synonym files = "string \<rightharpoonup> string"

text \<open>\<open>response.raise_for_status()\<close> raises on the statuses 400 to 599.\<close>

definition raise_for_status :: "response \<Rightarrow> bool" where
  "raise_for_status r = (400 \<le> status_code r \<and> status_code r < 600)"

text \<open>\<open>output_dir / filename\<close>, for a file name without directory part.\<close>

definition path_join :: "string \<Rightarrow> string \<Rightarrow> string" where
  "path_join dir name = dir @ ''/'' @ name"

text \<open>The file name of lines 638 and 664, for the loop index \<open>i\<close> and an extension.\<close>

definition image_filename :: "string \<Rightarrow> string \<Rightarrow> nat \<Rightarrow> string \<Rightarrow> string" where
  "image_filename cid cname i ext =
     cid @ ''_'' @ sanitize_filename cname @ ''_'' @ format_03d (i + 1) @ ''.'' @ ext"

text \<open>\<open>img.format.lower() if img.format else "jpeg"\<close> (line 660).\<close>

definition format_name :: "image \<Rightarrow> string" where
  "format_name img =
     (case img_format img of
        None \<Rightarrow> ''jpeg''
      | Some f \<Rightarrow> if f = [] then ''jpeg'' else lower f)"

text \<open>
  One iteration of the loop of \<open>_download_images\<close>, in an output directory that exists
  and can be written: the files afterwards, and the path appended to
  \<open>downloaded_images\<close> if there is one. Every exception ends the iteration: those raised
  while the image is verified in the inner handler (which removes \<open>output_path\<close> if it
  exists), all others in the outer handler (which only logs). Where the re-saved file
  has the path of the provisional one, the first \<open>os.remove\<close> deletes it and the second
  raises into the inner handler, which finds no file: the files are those of \<open>fs2\<close>.
\<close>

definition download_one ::
  "web \<Rightarrow> string \<Rightarrow> string \<Rightarrow> string \<Rightarrow> nat \<Rightarrow> string \<Rightarrow> files \<Rightarrow> files \<times> string option" where
  "download_one w output_dir cid cname i url fs =
     (let output_path = path_join output_dir (image_filename cid cname i ''jpg'') in
      case requests_get w url of
        None \<Rightarrow> (fs, None)
      | Some r \<Rightarrow>
          if raise_for_status r then (fs, None)
          else if \<not> prefix ''image/'' (content_type r) then (fs, None)
          else
            let fs1 = fs(output_path \<mapsto> body r) in
            if stream_raises r then (fs1, None)
            else
              (case image_open w (body r) of
                 None \<Rightarrow> (fs1(output_path := None), None)
               | Some img \<Rightarrow>
                   let fmt = format_name img in
                   if fmt \<noteq> ''jpeg'' then
                     let new_output_path =
                           path_join output_dir (image_filename cid cname i (lower fmt)) in
                     (case img_save img of
                        None \<Rightarrow> (fs1(output_path := None), None)
                      | Some bytes \<Rightarrow>
                          let fs2 = (fs1(new_output_path \<mapsto> bytes))(output_path := None) in
                          if img_width img < 100 \<or> img_height img < 100 then
                            (fs2(new_output_path := None), None)
                          else (fs2, Some new_output_path))
                   else if img_width img < 100 \<or> img_height img < 100 then
                     (fs1(output_path := None), None)
                   else (fs1, Some output_path)))"

text \<open>The loop \<open>for i, url in enumerate(urls)\<close>, from index \<open>i\<close> on.\<close>

fun download_loop ::
  "web \<Rightarrow> string \<Rightarrow> string \<Rightarrow> string \<Rightarrow> nat \<Rightarrow> string list \<Rightarrow> files \<times> string list
     \<Rightarrow> files \<times> string list" where
  "download_loop w output_dir cid cname i [] st = st"
| "download_loop w output_dir cid cname i (url # urls) (fs, downloaded_images) =
     (case download_one w output_dir cid cname i url fs of
        (fs', None) \<Rightarrow> download_loop w output_dir cid cname (Suc i) urls (fs', downloaded_images)
      | (fs', Some path) \<Rightarrow>
          download_loop w output_dir cid cname (Suc i) urls (fs', downloaded_images @ [path]))"

text \<open>\<open>_download_images\<close>; \<open>urls\<close> is the collection in its iteration order.\<close>

definition download_images ::
  "web \<Rightarrow> string list \<Rightarrow> string \<Rightarrow> string \<Rightarrow> string \<Rightarrow> files \<Rightarrow> files \<times> string list" where
  "download_images w urls output_dir cid cname fs =
     download_loop w output_dir cid cname 0 urls (fs, [])"

text \<open>
  A URL passes every step: the request returns, the status is not an error, the
  content type is an image type, the body is streamed to its end, the file decodes,
  a format other than JPEG can be re-saved, and both dimensions reach 100 pixels.
\<close>

definition passes :: "web \<Rightarrow> string \<Rightarrow> bool" where
  "passes w url =
     (case requests_get w url of
        None \<Rightarrow> False
      | Some r \<Rightarrow>
          \<not> raise_for_status r \<and> prefix ''image/'' (content_type r) \<and> \<not> stream_raises r
          \<and> (case image_open w (body r) of
                None \<Rightarrow> False
              | Some img \<Rightarrow>
                  (format_name img = ''jpeg'' \<or> img_save img \<noteq> None)
                  \<and> 100 \<le> img_width img \<and> 100 \<le> img_height img))"

text \<open>The path of the image file of loop index \<open>i\<close> with a given extension.\<close>

definition image_path :: "string \<Rightarrow> string \<Rightarrow> string \<Rightarrow> nat \<Rightarrow> string \<Rightarrow> string" where
  "image_path output_dir cid cname i ext = path_join output_dir (image_filename cid cname i ext)"

section \<open>Entity orchestrator\<close>

record options =
  max_images :: int
  no_zip :: bool
  zip_only :: bool

text \<open>
  What the collaborators do during one call of \<open>download_images_for_country\<close>:
  whether \<open>output_dir.mkdir\<close>, \<open>driver.get\<close> and \<open>_create_zip_file\<close> raise, the sets the
  four extraction methods return (each method handles its own exceptions), and the
  order in which Python iterates a set.
\<close>

record session =
  mkdir_raises :: bool
  driver_get_raises :: bool
  search_results_images :: "string set"
  page_content_images :: "string set"
  jsonld_images :: "string set"
  embedded_json_images :: "string set"
  iteration_order :: "string set \<Rightarrow> string list"
  session_web :: web
  create_zip_raises :: bool

datatype exception = OSError

text \<open>
  The loop \<open>for image_path in downloaded_images: os.remove(image_path)\<close>; the flag is
  false when \<open>os.remove\<close> raised on a missing file.
\<close>

fun remove_files :: "string list \<Rightarrow> files \<Rightarrow> files \<times> bool" where
  "remove_files [] fs = (fs, True)"
| "remove_files (p # ps) fs =
     (if fs p = None then (fs, False) else remove_files ps (fs(p := None)))"

text \<open>
  \<open>download_images_for_country\<close>: the files afterwards and either the exception that
  leaves the function or the returned count. The directory is created before the
  \<open>try\<close> block; everything after it runs inside the block, whose handler returns 0.
\<close>

definition download_images_for_country ::
  "options \<Rightarrow> session \<Rightarrow> string \<Rightarrow> string \<Rightarrow> string \<Rightarrow> files \<Rightarrow> files \<times> (exception + nat)" where
  "download_images_for_country opts s base_output_dir cname cid fs =
     (let output_dir = path_join base_output_dir (cid @ ''_'' @ sanitize_filename cname) in
      if mkdir_raises s then (fs, Inl OSError)
      else if driver_get_raises s then (fs, Inr 0)
      else
        let image_urls = search_results_images s \<union> page_content_images s
                           \<union> jsonld_images s \<union> embedded_json_images s;
            image_urls = filter_image_urls image_urls;
            urls = limit_images (max_images opts) (iteration_order s image_urls);
            (fs1, downloaded_images) = download_images (session_web s) urls output_dir cid cname fs
        in
          if no_zip opts then (fs1, Inr (length downloaded_images))
          else if create_zip_raises s then (fs1, Inr 0)
          else if zip_only opts then
            (case remove_files downloaded_images fs1 of
               (fs2, True) \<Rightarrow> (fs2, Inr (length downloaded_images))
             | (fs2, False) \<Rightarrow> (fs2, Inr 0))
          else (fs1, Inr (length downloaded_images)))"




section \<open>Example environments\<close>

text \<open>
  A server whose connection drops while the body is streamed: the response has status
  200 and an image content type, and \<open>iter_content\<close> raises after delivering part of
  the body.
\<close>

definition dropped_connection :: web where
  "dropped_connection =
     \<lparr>requests_get = (\<lambda>url. Some \<lparr>status_code = 200, content_type = ''image/jpeg'',
                                     body = ''partial'', stream_raises = True\<rparr>),
      image_open = (\<lambda>bytes. None)\<rparr>"

text \<open>
  A server that delivers a 640 by 480 JPEG for every URL, a session in which nothing
  raises and the search results hold one image URL, and two countries.
\<close>

definition example_options :: options where
  "example_options = \<lparr>max_images = 10, no_zip = False, zip_only = False\<rparr>"

definition good_web :: web where
  "good_web =
     \<lparr>requests_get = (\<lambda>url. Some \<lparr>status_code = 200, content_type = ''image/jpeg'',
                                     body = ''bytes'', stream_raises = False\<rparr>),
      image_open = (\<lambda>bytes. Some \<lparr>img_format = Some ''JPEG'', img_width = 640,
                                      img_height = 480, img_save = None\<rparr>)\<rparr>"

definition quiet_session :: session where
  "quiet_session =
     \<lparr>mkdir_raises = False, driver_get_raises = False,
      search_results_images = {''https://example.com/a.jpg''},
      page_content_images = {}, jsonld_images = {}, embedded_json_images = {},
      iteration_order = (\<lambda>urls. if urls = {''https://example.com/a.jpg''}
                                  then [''https://example.com/a.jpg''] else []),
      session_web = good_web, create_zip_raises = False\<rparr>"




section \<open>Properties of the URL normalizer\<close>

lemma base_url_no_equals: "CHR ''='' \<notin> set (base_url url)"
  by (auto simp: base_url_def dest: set_takeWhileD)

lemma base_url_append: "CHR ''='' \<notin> set b \<Longrightarrow> base_url (b @ CHR ''='' # rest) = b"
  by (induction b) (auto simp: base_url_def)

text \<open>
  C3. Normalizing twice gives the same URL as normalizing once, for every string.
\<close>

theorem get_high_res_image_url_idempotent:
  "get_high_res_image_url (get_high_res_image_url u) = get_high_res_image_url u"
proof (cases "size_pattern u")
  case False
  then show ?thesis by (simp add: get_high_res_image_url_def)
next
  case True
  let ?r = "base_url u @ ''=w2048-h2048''"
  have r: "get_high_res_image_url u = ?r"
    using True by (simp add: get_high_res_image_url_def)
  have "base_url ?r = base_url u"
    using base_url_append [OF base_url_no_equals, of u "''w2048-h2048''"] by simp
  then have "get_high_res_image_url ?r = ?r"
    by (simp add: get_high_res_image_url_def)
  with r show ?thesis by simp
qed

lemma contains_set: "contains sub s \<Longrightarrow> set sub \<subseteq> set s"
proof (induction s)
  case Nil
  then show ?case by simp
next
  case (Cons c cs)
  from Cons.prems have "prefix sub (c # cs) \<or> contains sub cs" by simp
  then show ?case
  proof
    assume "prefix sub (c # cs)"
    then show ?thesis by (rule set_mono_prefix)
  next
    assume "contains sub cs"
    then show ?thesis using Cons.IH by auto
  qed
qed

lemma base_url_split: "CHR ''='' \<in> set url \<Longrightarrow> \<exists>rest. url = base_url url @ CHR ''='' # rest"
proof -
  assume a: "CHR ''='' \<in> set url"
  have "url = takeWhile (\<lambda>c. c \<noteq> CHR ''='') url @ dropWhile (\<lambda>c. c \<noteq> CHR ''='') url"
    by simp
  moreover have "dropWhile (\<lambda>c. c \<noteq> CHR ''='') url \<noteq> []"
    using a by (simp add: dropWhile_eq_Nil_conv)
  moreover have "hd (dropWhile (\<lambda>c. c \<noteq> CHR ''='') url) = CHR ''=''"
    using a hd_dropWhile [of "\<lambda>c. c \<noteq> CHR ''=''" url] by (simp add: dropWhile_eq_Nil_conv)
  ultimately show ?thesis
    unfolding base_url_def by (metis list.collapse)
qed

text \<open>
  What the normalizer computes: on a URL that contains \<open>googleusercontent.com\<close> and
  one of \<open>=w\<close>, \<open>=s\<close>, \<open>=h\<close>, the part before the first \<open>=\<close> followed by
  \<open>=w2048-h2048\<close>; on every other URL, the URL itself.
\<close>

lemma get_high_res_image_url_cases:
  "(size_pattern url \<longrightarrow>
      (\<exists>rest. url = base_url url @ CHR ''='' # rest)
      \<and> CHR ''='' \<notin> set (base_url url)
      \<and> get_high_res_image_url url = base_url url @ ''=w2048-h2048'')
   \<and> (\<not> size_pattern url \<longrightarrow> get_high_res_image_url url = url)"
proof -
  have "CHR ''='' \<in> set url" if "size_pattern url"
    using that contains_set [of "''=w''" url] contains_set [of "''=s''" url]
      contains_set [of "''=h''" url]
    by (auto simp: size_pattern_def)
  then show ?thesis
    using base_url_split [of url] base_url_no_equals [of url]
    by (auto simp: get_high_res_image_url_def)
qed

text \<open>
  C4 does not hold on the code. The comment of line 563 announces the base URL
  without its size parameters, but the cut is made at the first \<open>=\<close> of the URL. In
  a matching URL whose first \<open>=\<close> belongs to a query parameter, the value of that
  parameter is dropped with the directive, so the result is not the URL with
  \<open>=w100-h100\<close> replaced by \<open>=w2048-h2048\<close>.
\<close>

theorem get_high_res_image_url_strips_more:
  "size_pattern ''https://lh3.googleusercontent.com/p?id=7=w100-h100''
   \<and> get_high_res_image_url ''https://lh3.googleusercontent.com/p?id=7=w100-h100''
       = ''https://lh3.googleusercontent.com/p?id=w2048-h2048''
   \<and> get_high_res_image_url ''https://lh3.googleusercontent.com/p?id=7=w100-h100''
       \<noteq> ''https://lh3.googleusercontent.com/p?id=7=w2048-h2048''"
  by (simp add: get_high_res_image_url_def size_pattern_def base_url_def)

section \<open>Properties of the filter stage\<close>

lemma filter_loop_filter_image_urls:
  "filter_loop urls filtered_urls = filtered_urls \<union> filter_image_urls (set urls)"
  by (induction urls arbitrary: filtered_urls) (auto simp: filter_image_urls_def)


lemma too_small_needs_both:
  "re_search_digits ''=w'' url = None \<or> re_search_digits ''=h'' url = None \<Longrightarrow> \<not> too_small url"
  by (auto simp: too_small_def split: option.splits)





text \<open>
  C6. With a positive \<open>max_count\<close> the truncation yields \<open>min(len(input), max_count)\<close>
  elements, namely the first \<open>max_count\<close> elements in iteration order, which is the
  whole input when the input is not longer than \<open>max_count\<close>; with \<open>max_count = 0\<close> it
  yields the whole input.
\<close>

theorem limit_images_length:
  "(0 < max_count \<longrightarrow>
      length (limit_images max_count urls) = min (length urls) (nat max_count)
      \<and> limit_images max_count urls = take (nat max_count) urls
      \<and> (int (length urls) \<le> max_count \<longrightarrow> limit_images max_count urls = urls))
   \<and> (max_count = 0 \<longrightarrow> limit_images max_count urls = urls)"
  by (auto simp: limit_images_def)

text \<open>C6 on three URLs with the limits 2, 5 and 0.\<close>

theorem limit_images_length_witness:
  "limit_images 2 [''a'', ''b'', ''c''] = [''a'', ''b'']
   \<and> limit_images 5 [''a'', ''b'', ''c''] = [''a'', ''b'', ''c'']
   \<and> limit_images 0 [''a'', ''b'', ''c''] = [''a'', ''b'', ''c'']"
  using limit_images_length [of 2 "[''a'', ''b'', ''c'']"]
    limit_images_length [of 5 "[''a'', ''b'', ''c'']"]
    limit_images_length [of 0 "[''a'', ''b'', ''c'']"]
  by (simp add: numeral_2_eq_2)

text \<open>
  C10. The filter stage returns a subset of its input, and filtering its output again
  changes nothing.
\<close>

theorem filter_image_urls_subset_idempotent:
  "filter_image_urls s \<subseteq> s
   \<and> filter_image_urls (filter_image_urls s) = filter_image_urls s"
  by (auto simp: filter_image_urls_def)

section \<open>Properties of the JSON walk\<close>

lemma nested_in_container: "nested_in sub j \<Longrightarrow> is_container sub \<Longrightarrow> is_container j"
  by (induction rule: nested_in.induct) (auto simp: is_container_def)

lemma json_adds_object_value:
  assumes "(k, v) \<in> set kvs" and "is_container v"
  shows "set (json_adds v) \<subseteq> set (json_adds (JObject kvs))"
proof -
  define f where "f = (\<lambda>value.
        case value of
          JObject kvs' \<Rightarrow> json_adds (JObject kvs')
        | JArray items \<Rightarrow> json_adds (JArray items)
        | _ \<Rightarrow> [])"
  have fv: "f v = json_adds v"
    using assms(2) by (cases v) (simp_all add: f_def is_container_def)
  have "v \<in> set (map snd kvs)" using assms(1) by force
  then have "set (f v) \<subseteq> set (concat (map f (map snd kvs)))" by auto
  moreover have "set (concat (map f (map snd kvs))) \<subseteq> set (json_adds (JObject kvs))"
    unfolding f_def by (subst json_adds.simps(1)) simp
  ultimately show ?thesis using fv by simp
qed

lemma json_adds_array_item:
  "v \<in> set items \<Longrightarrow> set (json_adds v) \<subseteq> set (json_adds (JArray items))"
  by (auto simp: json_adds.simps(2))

lemma json_adds_nested:
  "nested_in sub j \<Longrightarrow> is_container sub \<Longrightarrow> set (json_adds sub) \<subseteq> set (json_adds j)"
proof (induction rule: nested_in.induct)
  case (here j)
  then show ?case by simp
next
  case (in_object k v kvs sub)
  then have "is_container v" by (auto dest: nested_in_container)
  then show ?case
    using in_object json_adds_object_value [of k v kvs] by blast
next
  case (in_array v items sub)
  then show ?case
    using json_adds_array_item [of v items] by blast
qed

lemma json_adds_recognized_string:
  assumes "key \<in> set recognized_keys" and "map_of kvs key = Some (JString s)"
    and "is_image_string s"
  shows "get_high_res_image_url s \<in> set (json_adds (JObject kvs))"
proof -
  have "get_high_res_image_url s \<in> set (case map_of kvs key of
          None \<Rightarrow> []
        | Some (JString s) \<Rightarrow> (if is_image_string s then [get_high_res_image_url s] else [])
        | Some (JArray items) \<Rightarrow>
            concat (map (\<lambda>item.
              case item of
                JString s \<Rightarrow> (if is_image_string s then [get_high_res_image_url s] else [])
              | JObject kvs' \<Rightarrow> json_adds (JObject kvs')
              | _ \<Rightarrow> []) items)
        | Some (JObject kvs') \<Rightarrow> json_adds (JObject kvs')
        | Some _ \<Rightarrow> [])"
    using assms(2,3) by simp
  then show ?thesis
    using assms(1) by (subst json_adds.simps(1)) (simp, blast)
qed

lemma json_adds_recognized_array:
  assumes "key \<in> set recognized_keys" and "map_of kvs key = Some (JArray items)"
    and "JString s \<in> set items" and "is_image_string s"
  shows "get_high_res_image_url s \<in> set (json_adds (JObject kvs))"
proof -
  have "get_high_res_image_url s \<in> set (concat (map (\<lambda>item.
              case item of
                JString s \<Rightarrow> (if is_image_string s then [get_high_res_image_url s] else [])
              | JObject kvs' \<Rightarrow> json_adds (JObject kvs')
              | _ \<Rightarrow> []) items))"
    using assms(3,4) by force
  then have "get_high_res_image_url s \<in> set (case map_of kvs key of
          None \<Rightarrow> []
        | Some (JString s) \<Rightarrow> (if is_image_string s then [get_high_res_image_url s] else [])
        | Some (JArray items) \<Rightarrow>
            concat (map (\<lambda>item.
              case item of
                JString s \<Rightarrow> (if is_image_string s then [get_high_res_image_url s] else [])
              | JObject kvs' \<Rightarrow> json_adds (JObject kvs')
              | _ \<Rightarrow> []) items)
        | Some (JObject kvs') \<Rightarrow> json_adds (JObject kvs')
        | Some _ \<Rightarrow> [])"
    using assms(2) by simp
  then show ?thesis
    using assms(1) by (subst json_adds.simps(1)) (simp, blast)
qed

lemma nested_in_trans: "nested_in b c \<Longrightarrow> nested_in a b \<Longrightarrow> nested_in a c"
  by (induction rule: nested_in.induct) (auto intro: nested_in.intros)

lemma recognized_occurrence_mono:
  "recognized_occurrence sub s \<Longrightarrow> nested_in sub j \<Longrightarrow> recognized_occurrence j s"
  unfolding recognized_occurrence_def by (meson nested_in_trans)

lemma json_adds_sound:
  assumes "x \<in> set (json_adds j)"
  shows "\<exists>s. is_image_string s \<and> x = get_high_res_image_url s \<and> recognized_occurrence j s"
  using assms
proof (induction j rule: json_adds.induct)
  case (1 kvs)
  let ?F = "\<lambda>key.
        case map_of kvs key of
          None \<Rightarrow> []
        | Some (JString s) \<Rightarrow> (if is_image_string s then [get_high_res_image_url s] else [])
        | Some (JArray items) \<Rightarrow>
            concat (map (\<lambda>item.
              case item of
                JString s \<Rightarrow> (if is_image_string s then [get_high_res_image_url s] else [])
              | JObject kvs' \<Rightarrow> json_adds (JObject kvs')
              | _ \<Rightarrow> []) items)
        | Some (JObject kvs') \<Rightarrow> json_adds (JObject kvs')
        | Some _ \<Rightarrow> []"
  let ?G = "\<lambda>value.
        case value of
          JObject kvs' \<Rightarrow> json_adds (JObject kvs')
        | JArray items \<Rightarrow> json_adds (JArray items)
        | _ \<Rightarrow> []"
  have "json_adds (JObject kvs) = concat (map ?F recognized_keys) @ concat (map ?G (map snd kvs))"
    by (rule json_adds.simps(1))
  with "1.prems" consider
      (recognized) key where "key \<in> set recognized_keys" "x \<in> set (?F key)"
    | (child) v where "v \<in> set (map snd kvs)" "x \<in> set (?G v)"
    by auto
  then show ?case
  proof cases
    case recognized
    then obtain v where v: "map_of kvs key = Some v"
      by (cases "map_of kvs key") auto
    then have mem: "(key, v) \<in> set kvs" by (rule map_of_SomeD)
    show ?thesis
    proof (cases v)
      case (JString s)
      then have "is_image_string s" "x = get_high_res_image_url s"
        using recognized(2) v by (auto split: if_splits)
      moreover have "recognized_occurrence (JObject kvs) s"
        unfolding recognized_occurrence_def
        using recognized(1) v JString nested_in.here by blast
      ultimately show ?thesis by blast
    next
      case (JArray items)
      then obtain item where item: "item \<in> set items"
        and x: "x \<in> set (case item of
                JString s \<Rightarrow> (if is_image_string s then [get_high_res_image_url s] else [])
              | JObject kvs' \<Rightarrow> json_adds (JObject kvs')
              | _ \<Rightarrow> [])"
        using recognized(2) v by auto
      show ?thesis
      proof (cases item)
        case (JString s)
        then have "is_image_string s" "x = get_high_res_image_url s"
          using x by (auto split: if_splits)
        moreover have "recognized_occurrence (JObject kvs) s"
          unfolding recognized_occurrence_def
          using recognized(1) v JArray item JString nested_in.here by blast
        ultimately show ?thesis by blast
      next
        case (JObject kvs')
        then have "x \<in> set (json_adds (JObject kvs'))" using x by simp
        from "1.IH"(1) [OF recognized(1) v JArray item JObject this]
        obtain s where s: "is_image_string s" "x = get_high_res_image_url s"
          "recognized_occurrence (JObject kvs') s"
          by blast
        have "nested_in (JObject kvs') (JObject kvs)"
          using mem item JArray JObject
          by (blast intro: nested_in.intros)
        then show ?thesis using s recognized_occurrence_mono by blast
      qed (use x in simp_all)
    next
      case (JObject kvs')
      then have "x \<in> set (json_adds (JObject kvs'))" using recognized(2) v by simp
      from "1.IH"(2) [OF recognized(1) v JObject this]
      obtain s where s: "is_image_string s" "x = get_high_res_image_url s"
        "recognized_occurrence (JObject kvs') s"
        by blast
      have "nested_in (JObject kvs') (JObject kvs)"
        using mem JObject by (blast intro: nested_in.intros)
      then show ?thesis using s recognized_occurrence_mono by blast
    qed (use recognized(2) v in simp_all)
  next
    case child
    then obtain k where mem: "(k, v) \<in> set kvs" by auto
    then have nest: "nested_in v (JObject kvs)" by (blast intro: nested_in.intros)
    show ?thesis
    proof (cases v)
      case (JArray items)
      then have "x \<in> set (json_adds (JArray items))" using child(2) by simp
      from "1.IH"(3) [OF child(1) JArray this]
      obtain s where "is_image_string s" "x = get_high_res_image_url s"
        "recognized_occurrence (JArray items) s"
        by blast
      then show ?thesis using nest JArray recognized_occurrence_mono by blast
    next
      case (JObject kvs')
      then have "x \<in> set (json_adds (JObject kvs'))" using child(2) by simp
      from "1.IH"(4) [OF child(1) JObject this]
      obtain s where "is_image_string s" "x = get_high_res_image_url s"
        "recognized_occurrence (JObject kvs') s"
        by blast
      then show ?thesis using nest JObject recognized_occurrence_mono by blast
    qed (use child(2) in simp_all)
  qed
next
  case (2 items)
  then obtain item where item: "item \<in> set items" "x \<in> set (json_adds item)"
    by (auto simp: json_adds.simps(2))
  from "2.IH" [OF this]
  obtain s where "is_image_string s" "x = get_high_res_image_url s" "recognized_occurrence item s"
    by blast
  moreover have "nested_in item (JArray items)"
    using item(1) by (blast intro: nested_in.intros)
  ultimately show ?case using recognized_occurrence_mono by blast
qed (simp_all add: json_adds.simps)

lemma json_adds_complete:
  assumes "is_image_string s" and "recognized_occurrence json_data s"
  shows "get_high_res_image_url s \<in> set (json_adds json_data)"
proof -
  from assms(2) obtain kvs key where n: "nested_in (JObject kvs) json_data"
    and k: "key \<in> set recognized_keys"
    and m: "map_of kvs key = Some (JString s)
         \<or> (\<exists>items. map_of kvs key = Some (JArray items) \<and> JString s \<in> set items)"
    unfolding recognized_occurrence_def by blast
  have "get_high_res_image_url s \<in> set (json_adds (JObject kvs))"
    using k m assms(1) json_adds_recognized_string json_adds_recognized_array by blast
  moreover have "set (json_adds (JObject kvs)) \<subseteq> set (json_adds json_data)"
    using n by (rule json_adds_nested) (simp add: is_container_def)
  ultimately show ?thesis by blast
qed

text \<open>
  C2 (as amended). For every parsed JSON value, the walk adds to the result set
  exactly the normalized forms of the strings that pass the image test (they start
  with \<open>http\<close> and contain \<open>.jpg\<close>, \<open>.jpeg\<close>, \<open>.png\<close> or \<open>.webp\<close>, whatever the letter
  case) and occur under a recognized key: as the value of a recognized key, or as an
  element of a list stored under one, in a mapping nested at any depth below any keys
  and list positions. Nothing else is added: where no mapping of the value has a
  recognized key, the result set is unchanged, whatever strings the value holds.
\<close>

theorem json_walk_collects_exactly:
  "(x \<in> extract_images_from_json_object json_data image_urls
      \<longleftrightarrow> x \<in> image_urls
          \<or> (\<exists>s. is_image_string s \<and> x = get_high_res_image_url s
                  \<and> recognized_occurrence json_data s))
   \<and> ((\<forall>kvs key. nested_in (JObject kvs) json_data \<and> key \<in> set recognized_keys
                   \<longrightarrow> map_of kvs key = None)
        \<longrightarrow> extract_images_from_json_object json_data image_urls = image_urls)"
proof -
  have iff: "y \<in> set (json_adds json_data)
      \<longleftrightarrow> (\<exists>s. is_image_string s \<and> y = get_high_res_image_url s
                  \<and> recognized_occurrence json_data s)" for y
    using json_adds_sound [of y json_data] json_adds_complete [of _ json_data] by blast
  have "set (json_adds json_data) = {}"
    if "\<forall>kvs key. nested_in (JObject kvs) json_data \<and> key \<in> set recognized_keys
                   \<longrightarrow> map_of kvs key = None"
  proof -
    have "\<not> recognized_occurrence json_data s" for s
      unfolding recognized_occurrence_def using that by auto
    then have "\<forall>y. y \<notin> set (json_adds json_data)" using iff by simp
    then show ?thesis by (cases "json_adds json_data") auto
  qed
  then show ?thesis
    using iff [of x] by (auto simp: extract_images_from_json_object_def)
qed

lemma is_image_string_example: "is_image_string ''http://x.org/y.jpg''"
  by (simp add: is_image_string_def json_extensions_def lower_def to_lower_def uppercase_def
      lowercase_def)

text \<open>
  C2 as stated fails: an image URL stored under a key outside the recognized set,
  three mappings deep, is not collected.
\<close>

theorem json_walk_unrecognized_key_not_collected:
  "is_image_string ''http://x.org/y.jpg''
   \<and> extract_images_from_json_object
        (JObject [(''a'', JObject [(''b'', JObject [(''c'', JString ''http://x.org/y.jpg'')])])]) {}
       = {}"
proof -
  have c: "json_adds (JObject [(''c'', JString ''http://x.org/y.jpg'')]) = []"
    by (subst json_adds.simps(1)) (simp add: recognized_keys_def)
  have b: "json_adds (JObject [(''b'', JObject [(''c'', JString ''http://x.org/y.jpg'')])]) = []"
    by (subst json_adds.simps(1)) (simp add: recognized_keys_def c)
  have "json_adds (JObject [(''a'', JObject [(''b'', JObject [(''c'', JString ''http://x.org/y.jpg'')])])]) = []"
    by (subst json_adds.simps(1)) (simp add: recognized_keys_def b)
  then show ?thesis
    using is_image_string_example by (simp add: extract_images_from_json_object_def)
qed

inductive_cases nested_in_string: "nested_in (JObject kvs) (JString s)"
inductive_cases nested_in_array: "nested_in (JObject kvs) (JArray items)"

text \<open>
  The amended C2 at an image URL under the key \<open>image\<close>, below an unrecognized key, a
  list and another unrecognized key, and at a list that holds an image URL directly.
\<close>

theorem json_walk_collects_exactly_witness:
  "is_image_string ''http://x.org/y.jpg''
   \<and> recognized_occurrence
        (JObject [(''a'', JArray [JObject [(''b'', JObject [(''image'', JString ''http://x.org/y.jpg'')])]])])
        ''http://x.org/y.jpg''
   \<and> get_high_res_image_url ''http://x.org/y.jpg''
       \<in> extract_images_from_json_object
           (JObject [(''a'', JArray [JObject [(''b'', JObject [(''image'', JString ''http://x.org/y.jpg'')])]])]) {}
   \<and> extract_images_from_json_object (JArray [JString ''http://x.org/y.jpg''])
        {''http://x.org/z.png''} = {''http://x.org/z.png''}"
proof -
  let ?inner = "JObject [(''image'', JString ''http://x.org/y.jpg'')]"
  let ?outer = "JObject [(''a'', JArray [JObject [(''b'', ?inner)]])]"
  have n: "nested_in ?inner ?outer"
    by (rule in_object [of "''a''" "JArray [JObject [(''b'', ?inner)]]"], simp,
        rule in_array [of "JObject [(''b'', ?inner)]"], simp,
        rule in_object [of "''b''" ?inner], simp, rule here)
  have k: "''image'' \<in> set recognized_keys" by (simp add: recognized_keys_def)
  have occ: "recognized_occurrence ?outer ''http://x.org/y.jpg''"
    unfolding recognized_occurrence_def
    by (rule exI [of _ "[(''image'', JString ''http://x.org/y.jpg'')]"], rule exI [of _ "''image''"])
       (simp add: n k)
  have none: "\<forall>kvs key. nested_in (JObject kvs) (JArray [JString ''http://x.org/y.jpg''])
                \<and> key \<in> set recognized_keys \<longrightarrow> map_of kvs key = None"
    by (auto elim!: nested_in_array nested_in_string)
  have "get_high_res_image_url ''http://x.org/y.jpg'' \<in> extract_images_from_json_object ?outer {}"
    using json_walk_collects_exactly [of "get_high_res_image_url ''http://x.org/y.jpg''" ?outer "{}"]
      is_image_string_example occ
    by blast
  moreover have "extract_images_from_json_object (JArray [JString ''http://x.org/y.jpg''])
        {''http://x.org/z.png''} = {''http://x.org/z.png''}"
    using json_walk_collects_exactly [of _ "JArray [JString ''http://x.org/y.jpg'']"
        "{''http://x.org/z.png''}"] none
    by blast
  ultimately show ?thesis
    using is_image_string_example occ by blast
qed

section \<open>Properties of filename sanitation\<close>

lemma contains_sublist: "contains sub s = sublist sub s"
  by (induction s) (auto simp: sublist_Cons_right)

lemma sublist_strip: "sublist (strip s) s"
proof -
  have "sublist (dropWhile is_space (rev (dropWhile is_space s))) (rev (dropWhile is_space s))"
    by simp
  then have "sublist (strip s) (dropWhile is_space s)"
    unfolding strip_def by (simp add: sublist_rev_left)
  moreover have "sublist (dropWhile is_space s) s" by simp
  ultimately show ?thesis by (rule sublist_order.order.trans)
qed

lemma strip_nonempty:
  assumes "\<not> list_all is_space s"
  shows "strip s \<noteq> []"
proof -
  from assms obtain x where x: "x \<in> set s" "\<not> is_space x"
    by (auto simp: list_all_iff)
  then have "dropWhile is_space s \<noteq> []"
    by (auto simp: dropWhile_eq_Nil_conv)
  then have "hd (dropWhile is_space s) \<in> set (rev (dropWhile is_space s))"
    by simp
  moreover have "\<not> is_space (hd (dropWhile is_space s))"
    using x hd_dropWhile [of is_space s] by (auto simp: dropWhile_eq_Nil_conv)
  ultimately have "dropWhile is_space (rev (dropWhile is_space s)) \<noteq> []"
    by (auto simp: dropWhile_eq_Nil_conv)
  then show ?thesis by (simp add: strip_def)
qed

lemma replace_invalid_valid: "c \<in> set (replace_invalid name) \<Longrightarrow> c \<notin> set invalid_chars"
  by (auto simp: replace_invalid_def invalid_chars_def)

lemma replace_invalid_space: "is_space c \<Longrightarrow> c \<notin> set invalid_chars"
  by (auto simp: is_space_def whitespace_def invalid_chars_def)

lemma collapse_whitespace_set:
  "c \<in> set (collapse_whitespace s) \<Longrightarrow> c = CHR '' '' \<or> (c \<in> set s \<and> \<not> is_space c)"
  by (induction s rule: collapse_whitespace.induct) (auto split: if_splits dest: set_dropWhileD)

lemma collapse_whitespace_head:
  "collapse_whitespace s = x # xs \<Longrightarrow> is_space x \<Longrightarrow> s \<noteq> [] \<and> is_space (hd s)"
  by (cases s) (auto split: if_splits)

lemma collapse_whitespace_after_run:
  "\<not> prefix '' '' (collapse_whitespace (dropWhile is_space cs))"
proof
  assume "prefix '' '' (collapse_whitespace (dropWhile is_space cs))"
  then obtain xs where xs: "collapse_whitespace (dropWhile is_space cs) = CHR '' '' # xs"
    by (auto simp: prefix_def)
  have "is_space CHR '' ''" by (simp add: is_space_def whitespace_def)
  with xs have "dropWhile is_space cs \<noteq> [] \<and> is_space (hd (dropWhile is_space cs))"
    by (rule collapse_whitespace_head)
  then show False using hd_dropWhile [of is_space cs] by simp
qed

lemma collapse_whitespace_no_run: "\<not> contains ''  '' (collapse_whitespace s)"
proof (induction s rule: collapse_whitespace.induct)
  case 1
  then show ?case by simp
next
  case (2 c cs)
  show ?case
  proof (cases "is_space c")
    case True
    then show ?thesis
      using 2 collapse_whitespace_after_run [of cs] by simp
  next
    case False
    then have "c \<noteq> CHR '' ''" by (auto simp: is_space_def whitespace_def)
    then show ?thesis using 2 False by simp
  qed
qed

lemma collapse_whitespace_blank:
  "isspace s \<Longrightarrow> collapse_whitespace s = '' ''"
proof -
  assume "isspace s"
  then obtain c cs where s: "s = c # cs" and c: "is_space c" and cs: "list_all is_space cs"
    by (cases s) (auto simp: isspace_def)
  from cs have d: "dropWhile is_space cs = []"
    by (simp add: dropWhile_eq_Nil_conv list_all_iff)
  have "collapse_whitespace s = CHR '' '' # collapse_whitespace (dropWhile is_space cs)"
    using s c by simp
  also have "\<dots> = '' ''" unfolding d by simp
  finally show ?thesis .
qed

lemma replace_invalid_blank: "isspace s \<Longrightarrow> replace_invalid s = s"
proof -
  assume "isspace s"
  then have "\<forall>c\<in>set s. c \<notin> set invalid_chars"
    by (auto simp: isspace_def list_all_iff dest: replace_invalid_space)
  then show ?thesis
    by (simp add: replace_invalid_def map_idI)
qed

lemma no_run_append_dots:
  "\<not> contains ''  '' s \<Longrightarrow> \<not> contains ''  '' (s @ ''...'')"
proof (induction s)
  case Nil
  then show ?case by simp
next
  case (Cons c cs)
  then have "\<not> contains ''  '' (cs @ ''...'')" by simp
  moreover have "\<not> prefix ''  '' (c # cs @ ''...'')"
  proof
    assume p: "prefix ''  '' (c # cs @ ''...'')"
    then have "c = CHR '' ''" and "prefix '' '' (cs @ ''...'')" by auto
    then have "prefix ''  '' (c # cs)" by (cases cs) auto
    then show False using Cons.prems by auto
  qed
  ultimately show ?case by simp
qed

lemma no_run_truncate:
  assumes "\<not> contains ''  '' s"
  shows "\<not> contains ''  '' (truncate_name s)"
proof (cases "length s > 50")
  case True
  have "sublist (take 47 s) s" by simp
  then have "\<not> contains ''  '' (take 47 s)"
    using assms sublist_order.order.trans [of "''  ''" "take 47 s" s]
    by (auto simp: contains_sublist)
  then show ?thesis
    using True by (simp add: truncate_name_def no_run_append_dots)
next
  case False
  then show ?thesis using assms by (simp add: truncate_name_def)
qed

lemma truncate_name_length: "length (truncate_name s) \<le> 50"
  by (simp add: truncate_name_def)

lemma truncate_name_set: "c \<in> set (truncate_name s) \<Longrightarrow> c \<in> set s \<or> c = CHR ''.''"
  by (auto simp: truncate_name_def split: if_splits dest: in_set_takeD)

lemma sanitize_filename_pending: "sanitize_filename name = strip (sanitized_pending name)"
  by (simp add: sanitize_filename_def sanitized_pending_def Let_def)

lemma placeholder_facts:
  "length ''unnamed_country'' \<le> 50" "\<not> contains ''  '' ''unnamed_country''"
  "\<not> list_all is_space ''unnamed_country''"
  "\<forall>c\<in>set ''unnamed_country''. c \<notin> set invalid_chars \<and> \<not> is_space c"
  by (simp_all add: is_space_def whitespace_def invalid_chars_def)

lemma pending_length: "length (sanitized_pending name) \<le> 50"
  by (simp add: sanitized_pending_def Let_def truncate_name_length)

lemma pending_not_blank: "\<not> list_all is_space (sanitized_pending name)"
  using placeholder_facts(3)
  by (auto simp: sanitized_pending_def Let_def isspace_def)

lemma pending_chars:
  assumes "c \<in> set (sanitized_pending name)"
  shows "c \<notin> set invalid_chars \<and> (is_space c \<longrightarrow> c = CHR '' '')"
proof (cases "sanitized_pending name = ''unnamed_country''")
  case True
  then show ?thesis using assms placeholder_facts(4) by auto
next
  case False
  then have "c \<in> set (truncate_name (collapse_whitespace (replace_invalid name)))"
    using assms by (auto simp: sanitized_pending_def Let_def split: if_splits)
  then consider "c = CHR ''.''" | "c = CHR '' ''"
    | "c \<in> set (replace_invalid name)" "\<not> is_space c"
    by (auto dest!: truncate_name_set collapse_whitespace_set)
  then show ?thesis
  proof cases
    case 1
    then show ?thesis by (simp add: invalid_chars_def is_space_def whitespace_def)
  next
    case 2
    then show ?thesis by (simp add: invalid_chars_def)
  next
    case 3
    then show ?thesis by (auto dest: replace_invalid_valid)
  qed
qed

lemma pending_no_run: "\<not> contains ''  '' (sanitized_pending name)"
  using placeholder_facts(2) no_run_truncate [OF collapse_whitespace_no_run]
  by (simp add: sanitized_pending_def Let_def)

lemma in_dropWhile: "x \<in> set xs \<Longrightarrow> \<not> P x \<Longrightarrow> x \<in> set (dropWhile P xs)"
  by (induction xs) auto

lemma collapse_whitespace_keeps:
  "x \<in> set s \<Longrightarrow> \<not> is_space x \<Longrightarrow> x \<in> set (collapse_whitespace s)"
  by (induction s rule: collapse_whitespace.induct) (auto intro: in_dropWhile)

lemma collapse_replace_not_blank:
  assumes "\<not> list_all is_space name"
  shows "\<not> list_all is_space (collapse_whitespace (replace_invalid name))"
proof -
  from assms obtain x where x: "x \<in> set name" "\<not> is_space x"
    by (auto simp: list_all_iff)
  define y where "y = (if x \<in> set invalid_chars then CHR ''_'' else x)"
  have "y \<in> set (replace_invalid name)"
    using x(1) by (auto simp: replace_invalid_def y_def)
  moreover have "\<not> is_space y"
    using x(2) by (simp add: y_def is_space_def whitespace_def)
  ultimately have "y \<in> set (collapse_whitespace (replace_invalid name))"
    by (rule collapse_whitespace_keeps)
  with \<open>\<not> is_space y\<close> show ?thesis by (auto simp: list_all_iff)
qed

lemma strip_append_dots: "strip (s @ ''...'') = dropWhile is_space s @ ''...''"
proof -
  have dot: "\<not> is_space CHR ''.''" by (simp add: is_space_def whitespace_def)
  have "dropWhile is_space (s @ ''...'') = dropWhile is_space s @ ''...''"
    using dot by (induction s) auto
  then show ?thesis using dot by (simp add: strip_def)
qed

lemma strip_placeholder: "strip ''unnamed_country'' = ''unnamed_country''"
  by (simp add: strip_def is_space_def whitespace_def)

lemma sanitize_filename_blank:
  assumes "name = [] \<or> isspace name"
  shows "sanitize_filename name = ''unnamed_country''"
proof -
  have "collapse_whitespace (replace_invalid name) = [] \<or>
        collapse_whitespace (replace_invalid name) = '' ''"
    using assms replace_invalid_blank [of name] collapse_whitespace_blank [of name]
    by (auto simp: replace_invalid_def)
  moreover have "isspace '' ''" by (simp add: isspace_def is_space_def whitespace_def)
  ultimately have "sanitized_pending name = ''unnamed_country''"
    by (auto simp: sanitized_pending_def truncate_name_def)
  then show ?thesis by (simp add: sanitize_filename_pending strip_placeholder)
qed

lemma sanitize_filename_long:
  assumes "50 < length (collapse_whitespace (replace_invalid name))"
  shows "sanitize_filename name
          = strip (take 47 (collapse_whitespace (replace_invalid name)) @ ''...'')"
    and "suffix ''...'' (sanitize_filename name)"
proof -
  let ?t = "take 47 (collapse_whitespace (replace_invalid name)) @ ''...''"
  have "\<not> is_space CHR ''.''" by (simp add: is_space_def whitespace_def)
  then have "\<not> isspace ?t" by (simp add: isspace_def)
  then have "sanitized_pending name = ?t"
    using assms by (simp add: sanitized_pending_def truncate_name_def)
  then show "sanitize_filename name = strip ?t"
    by (simp add: sanitize_filename_pending)
  then show "suffix ''...'' (sanitize_filename name)"
    by (simp only: strip_append_dots suffix_def) blast
qed

lemma sanitize_filename_short:
  assumes "length (collapse_whitespace (replace_invalid name)) \<le> 50"
    and "\<not> (name = [] \<or> isspace name)"
  shows "sanitize_filename name = strip (collapse_whitespace (replace_invalid name))"
proof -
  have "\<not> list_all is_space name" using assms(2) by (auto simp: isspace_def)
  then have nb: "\<not> list_all is_space (collapse_whitespace (replace_invalid name))"
    by (rule collapse_replace_not_blank)
  then have "collapse_whitespace (replace_invalid name) \<noteq> []" by auto
  then have "sanitized_pending name = collapse_whitespace (replace_invalid name)"
    using assms(1) nb by (simp add: sanitized_pending_def truncate_name_def isspace_def)
  then show ?thesis by (simp add: sanitize_filename_pending)
qed

text \<open>
  C7 (as amended). For every input string the sanitized name has at most 50
  characters, is not empty, contains none of the nine characters that are illegal in
  file names (backslash, slash, star, question mark, colon, double quote, less-than,
  greater-than, bar), and its only whitespace is single spaces. An empty or all-whitespace input gives the
  placeholder \<open>unnamed_country\<close>. When the name after replacing the illegal characters
  by underscores and collapsing every run of whitespace to one space is longer than
  50 characters, the result is its first 47 characters followed by the ellipsis
  marker \<open>...\<close> (stripped); otherwise the result is that name, stripped.
\<close>

theorem sanitize_filename_spec:
  "length (sanitize_filename name) \<le> 50
   \<and> sanitize_filename name \<noteq> []
   \<and> (\<forall>c \<in> set (sanitize_filename name).
         c \<notin> set invalid_chars \<and> (is_space c \<longrightarrow> c = CHR '' ''))
   \<and> \<not> contains ''  '' (sanitize_filename name)
   \<and> (name = [] \<or> isspace name \<longrightarrow> sanitize_filename name = ''unnamed_country'')
   \<and> (50 < length (collapse_whitespace (replace_invalid name)) \<longrightarrow>
        sanitize_filename name
          = strip (take 47 (collapse_whitespace (replace_invalid name)) @ ''...'')
        \<and> suffix ''...'' (sanitize_filename name))
   \<and> (length (collapse_whitespace (replace_invalid name)) \<le> 50
        \<and> \<not> (name = [] \<or> isspace name) \<longrightarrow>
        sanitize_filename name = strip (collapse_whitespace (replace_invalid name)))"
proof -
  let ?p = "sanitized_pending name"
  have sub: "sublist (sanitize_filename name) ?p"
    by (simp add: sanitize_filename_pending sublist_strip)
  have "length (sanitize_filename name) \<le> 50"
    using sublist_length_le [OF sub] pending_length [of name] by simp
  moreover have "sanitize_filename name \<noteq> []"
    using strip_nonempty [OF pending_not_blank, of name] by (simp add: sanitize_filename_pending)
  moreover have "\<forall>c \<in> set (sanitize_filename name).
         c \<notin> set invalid_chars \<and> (is_space c \<longrightarrow> c = CHR '' '')"
    using set_mono_sublist [OF sub] pending_chars [of _ name] by blast
  moreover have "\<not> contains ''  '' (sanitize_filename name)"
    using sub pending_no_run [of name]
      sublist_order.order.trans [of "''  ''" "sanitize_filename name" ?p]
    by (auto simp: contains_sublist)
  ultimately show ?thesis
    using sanitize_filename_blank [of name] sanitize_filename_long [of name]
      sanitize_filename_short [of name]
    by blast
qed

text \<open>
  The amended C7 at the empty name, at a name of 60 letters and at a short name with an
  illegal character and a run of two spaces.
\<close>

theorem sanitize_filename_spec_witness:
  "sanitize_filename [] = ''unnamed_country''
   \<and> 50 < length (collapse_whitespace (replace_invalid (replicate 60 CHR ''a'')))
   \<and> suffix ''...'' (sanitize_filename (replicate 60 CHR ''a''))
   \<and> length (collapse_whitespace (replace_invalid ''Peru /  Chile'')) \<le> 50
   \<and> sanitize_filename ''Peru /  Chile'' = ''Peru _ Chile''
   \<and> length (sanitize_filename ''Peru /  Chile'') \<le> 50"
proof -
  have long: "50 < length (collapse_whitespace (replace_invalid (replicate 60 CHR ''a'')))"
    by code_simp
  have short: "length (collapse_whitespace (replace_invalid ''Peru /  Chile'')) \<le> 50"
    by code_simp
  have nonblank: "\<not> (''Peru /  Chile'' = [] \<or> isspace ''Peru /  Chile'')"
    by code_simp
  have val: "strip (collapse_whitespace (replace_invalid ''Peru /  Chile'')) = ''Peru _ Chile''"
    by code_simp
  have "sanitize_filename [] = ''unnamed_country''"
    using sanitize_filename_spec [of "[]"] by blast
  moreover have "suffix ''...'' (sanitize_filename (replicate 60 CHR ''a''))"
    using sanitize_filename_spec [of "replicate 60 CHR ''a''"] long by blast
  moreover have "sanitize_filename ''Peru /  Chile'' = ''Peru _ Chile''"
    using sanitize_filename_spec [of "''Peru /  Chile''"] short nonblank val by metis
  moreover have "length (sanitize_filename ''Peru /  Chile'') \<le> 50"
    using sanitize_filename_spec [of "''Peru /  Chile''"] by blast
  ultimately show ?thesis using long short by blast
qed

text \<open>
  C7 as stated fails: an input longer than 50 characters whose whitespace collapses to
  a short name is not truncated and gets no ellipsis marker.
\<close>

theorem sanitize_filename_collapsed_input_not_truncated:
  "50 < length (CHR ''a'' # replicate 50 CHR '' '' @ ''b'')
   \<and> sanitize_filename (CHR ''a'' # replicate 50 CHR '' '' @ ''b'') = ''a b''
   \<and> \<not> suffix ''...'' (sanitize_filename (CHR ''a'' # replicate 50 CHR '' '' @ ''b''))"
proof -
  have "sanitize_filename (CHR ''a'' # replicate 50 CHR '' '' @ ''b'') = ''a b''"
    by code_simp
  then show ?thesis by (simp add: suffix_def)
qed

section \<open>Properties of the entity list parser\<close>

lemma process_lines_append:
  "process_lines (xs @ ys) st = process_lines ys (process_lines xs st)"
proof (induction xs arbitrary: st)
  case Nil
  then show ?case by simp
next
  case (Cons raw xs)
  obtain countries warnings where st: "st = (countries, warnings)" by (cases st)
  show ?case
    unfolding st by (simp add: Let_def Cons.IH split: list.splits)
qed

lemma split_colon_once_at:
  "CHR '':'' \<notin> set a \<Longrightarrow> split_colon_once (a @ CHR '':'' # b) = [a, b]"
  by (induction a) (auto simp: split_colon_once_def)

lemma split_colon_once_none:
  "CHR '':'' \<notin> set line \<Longrightarrow> split_colon_once line = [line]"
  by (simp add: split_colon_once_def)

text \<open>
  C8 (as amended). The parser runs over all the lines in order, whatever the lines
  before and after a line are. A line that is blank after trimming is ignored. A
  non-blank line without a colon adds no entity and is reported in a warning. Every
  other line is split at its first colon and adds one entity whose id and name are the
  two parts, trimmed; later colons stay in the name.
\<close>

theorem get_countries_from_file_lines:
  "get_countries_from_file (Some lines) = process_lines lines ([], [])
   \<and> process_lines (before @ raw # after) ([], [])
       = process_lines after (process_lines [raw] (process_lines before ([], [])))
   \<and> (strip raw = [] \<longrightarrow> process_lines [raw] (countries, warnings) = (countries, warnings))
   \<and> (strip raw \<noteq> [] \<and> CHR '':'' \<notin> set (strip raw) \<longrightarrow>
        process_lines [raw] (countries, warnings) = (countries, warnings @ [strip raw]))
   \<and> (strip raw = a @ CHR '':'' # b \<and> CHR '':'' \<notin> set a \<longrightarrow>
        process_lines [raw] (countries, warnings)
          = (countries @ [\<lparr>country_id = strip a, country_name = strip b\<rparr>], warnings))"
proof -
  have "process_lines (before @ raw # after) ([], [])
       = process_lines after (process_lines [raw] (process_lines before ([], [])))"
    using process_lines_append [of before "[raw] @ after" "([], [])"]
      process_lines_append [of "[raw]" after]
    by simp
  moreover have "strip raw = [] \<longrightarrow> process_lines [raw] (countries, warnings) = (countries, warnings)"
    by simp
  moreover have "strip raw \<noteq> [] \<and> CHR '':'' \<notin> set (strip raw) \<longrightarrow>
        process_lines [raw] (countries, warnings) = (countries, warnings @ [strip raw])"
    by (simp add: split_colon_once_none)
  moreover have "strip raw = a @ CHR '':'' # b \<and> CHR '':'' \<notin> set a \<longrightarrow>
        process_lines [raw] (countries, warnings)
          = (countries @ [\<lparr>country_id = strip a, country_name = strip b\<rparr>], warnings)"
    by (simp add: split_colon_once_at)
  ultimately show ?thesis
    by (simp add: get_countries_from_file_def)
qed

text \<open>
  The amended C8 at a blank line, a line without a colon, a line with two colons, and
  a file of four lines.
\<close>

theorem get_countries_from_file_lines_witness:
  "strip [CHR 0x0A] = []
   \<and> process_lines [[CHR 0x0A]] ([], []) = ([], [])
   \<and> strip (''no colon here'' @ [CHR 0x0A]) \<noteq> []
   \<and> CHR '':'' \<notin> set (strip (''no colon here'' @ [CHR 0x0A]))
   \<and> process_lines [''no colon here'' @ [CHR 0x0A]] ([], []) = ([], [''no colon here''])
   \<and> strip '' 07 :  At:lantis '' = ''07 '' @ CHR '':'' # ''  At:lantis''
   \<and> CHR '':'' \<notin> set ''07 ''
   \<and> process_lines ['' 07 :  At:lantis ''] ([], [])
       = ([\<lparr>country_id = ''07'', country_name = ''At:lantis''\<rparr>], [])
   \<and> get_countries_from_file
        (Some [''12: Wakanda'' @ [CHR 0x0A], [CHR 0x0A], ''no colon here'' @ [CHR 0x0A],
               '' 07 :  At:lantis ''])
       = ([\<lparr>country_id = ''12'', country_name = ''Wakanda''\<rparr>,
           \<lparr>country_id = ''07'', country_name = ''At:lantis''\<rparr>], [''no colon here''])"
proof -
  have s2: "strip [CHR 0x0A] = []"
    by code_simp
  have s3: "strip (''no colon here'' @ [CHR 0x0A]) = ''no colon here''"
    by code_simp
  have s4: "strip '' 07 :  At:lantis '' = ''07 '' @ CHR '':'' # ''  At:lantis''"
    by code_simp
  have t: "strip ''07 '' = ''07''" "strip ''  At:lantis'' = ''At:lantis''"
    by code_simp+
  have l2: "process_lines [[CHR 0x0A]] ([], []) = ([], [])"
    using get_countries_from_file_lines [of "[]" "[]" "[CHR 0x0A]" "[]" "[]" "[]"] s2 by blast
  have l3: "process_lines [''no colon here'' @ [CHR 0x0A]] ([], []) = ([], [''no colon here''])"
    using get_countries_from_file_lines [of "[]" "[]" "''no colon here'' @ [CHR 0x0A]" "[]" "[]" "[]"] s3 by simp
  have l4: "process_lines ['' 07 :  At:lantis ''] ([], [])
       = ([\<lparr>country_id = ''07'', country_name = ''At:lantis''\<rparr>], [])"
    using get_countries_from_file_lines [of "[]" "[]" "'' 07 :  At:lantis ''" "[]" "[]" "[]" "''07 ''" "''  At:lantis''"] s4 t
    by simp
  have all: "get_countries_from_file
        (Some [''12: Wakanda'' @ [CHR 0x0A], [CHR 0x0A], ''no colon here'' @ [CHR 0x0A],
               '' 07 :  At:lantis ''])
       = ([\<lparr>country_id = ''12'', country_name = ''Wakanda''\<rparr>,
           \<lparr>country_id = ''07'', country_name = ''At:lantis''\<rparr>], [''no colon here''])"
    by code_simp
  show ?thesis
    using s2 s3 s4 l2 l3 l4 all by simp
qed

text \<open>
  C8 as stated fails: a line with two colons has more than one colon-separated split,
  yet it is not skipped. It gives an entity and no warning.
\<close>

theorem get_countries_from_file_two_colons:
  "length (filter (\<lambda>c. c = CHR '':'') ''a:b:c'') = 2
   \<and> get_countries_from_file (Some [''a:b:c''])
       = ([\<lparr>country_id = ''a'', country_name = ''b:c''\<rparr>], [])"
  by code_simp

section \<open>Properties of the downloader\<close>

lemma filename_example:
  "path_join ''out'' (image_filename ''12'' ''Wakanda'' 0 ''jpg'') = ''out/12_Wakanda_001.jpg''"
  by code_simp

lemma digit_value_nth: "k < 10 \<Longrightarrow> digit_value (digits ! k) = k"
proof -
  assume "k < 10"
  then have "k \<in> {0, 1, 2, 3, 4, 5, 6, 7, 8, 9}" by auto
  then show ?thesis
    by (auto simp: digit_value_def digits_def)
qed

lemma is_digit_nth: "k < 10 \<Longrightarrow> is_digit (digits ! k)"
  unfolding is_digit_def by (rule nth_mem) (simp add: digits_def)

lemma int_of_digits_snoc: "int_of_digits (ds @ [c]) = 10 * int_of_digits ds + digit_value c"
  by (simp add: int_of_digits_def)

lemma str_nat_digits: "c \<in> set (str_nat n) \<Longrightarrow> is_digit c"
proof (induction n arbitrary: c rule: str_nat.induct)
  case (1 n)
  show ?case
  proof (cases "n < 10")
    case True
    then show ?thesis using 1(2) is_digit_nth [of n] by (simp add: str_nat.simps [of n])
  next
    case False
    then show ?thesis
      using 1 is_digit_nth [of "n mod 10"] by (auto simp: str_nat.simps [of n])
  qed
qed

lemma int_of_str_nat: "int_of_digits (str_nat n) = n"
proof (induction n rule: str_nat.induct)
  case (1 n)
  show ?case
  proof (cases "n < 10")
    case True
    then show ?thesis
      using digit_value_nth [of n] by (simp add: str_nat.simps [of n] int_of_digits_def)
  next
    case False
    then show ?thesis
      using 1 digit_value_nth [of "n mod 10"]
      by (simp add: str_nat.simps [of n] int_of_digits_snoc)
  qed
qed

lemma int_of_digits_zeros: "int_of_digits (replicate k CHR ''0'' @ ds) = int_of_digits ds"
  by (induction k) (simp_all add: int_of_digits_def digit_value_def digits_def)

lemma format_03d_value: "int_of_digits (format_03d n) = n"
  by (simp add: format_03d_def int_of_digits_zeros int_of_str_nat)

lemma format_03d_digits: "c \<in> set (format_03d n) \<Longrightarrow> is_digit c"
  by (auto simp: format_03d_def is_digit_def digits_def dest: str_nat_digits)

lemma format_03d_cut:
  "takeWhile is_digit (format_03d n @ CHR ''.'' # ext) = format_03d n"
proof -
  have "\<not> is_digit CHR ''.''" by (simp add: is_digit_def digits_def)
  then show ?thesis
    using format_03d_digits [of _ n] by (simp add: takeWhile_append2)
qed

lemma image_path_inject:
  assumes "image_path output_dir cid cname i e1 = image_path output_dir cid cname j e2"
  shows "i = j \<and> e1 = e2"
proof -
  from assms have eq: "format_03d (i + 1) @ CHR ''.'' # e1 = format_03d (j + 1) @ CHR ''.'' # e2"
    by (simp add: image_path_def path_join_def image_filename_def)
  then have "takeWhile is_digit (format_03d (i + 1) @ CHR ''.'' # e1)
             = takeWhile is_digit (format_03d (j + 1) @ CHR ''.'' # e2)"
    by simp
  then have f: "format_03d (i + 1) = format_03d (j + 1)"
    by (simp only: format_03d_cut)
  then have "int_of_digits (format_03d (i + 1)) = int_of_digits (format_03d (j + 1))"
    by simp
  then have "i = j" by (simp add: format_03d_value)
  moreover have "e1 = e2" using eq f by simp
  ultimately show ?thesis by simp
qed


lemma download_one_clean:
  assumes ns: "\<forall>r. requests_get w url = Some r \<longrightarrow> \<not> stream_raises r"
    and nj: "\<forall>b img. image_open w b = Some img \<longrightarrow> lower (format_name img) \<noteq> ''jpg''"
    and free: "\<forall>ext. fs (image_path output_dir cid cname i ext) = None"
  shows "(passes w url \<longrightarrow>
            (\<exists>ext bytes. download_one w output_dir cid cname i url fs
               = (fs(image_path output_dir cid cname i ext \<mapsto> bytes),
                  Some (image_path output_dir cid cname i ext))))
         \<and> (\<not> passes w url \<longrightarrow> download_one w output_dir cid cname i url fs = (fs, None))"
proof (cases "requests_get w url")
  case None
  then show ?thesis by (simp add: passes_def download_one_def)
next
  case get: (Some r)
  let ?op = "image_path output_dir cid cname i ''jpg''"
  have op: "fs ?op = None" using free by simp
  have undo: "(fs(?op \<mapsto> b))(?op := None) = fs" for b
    using op by (auto simp: fun_eq_iff)
  have r: "\<not> stream_raises r" using ns get by simp
  show ?thesis
  proof (cases "image_open w (body r)")
    case None
    then show ?thesis
      using get r undo
      by (simp add: passes_def download_one_def Let_def image_path_def [symmetric])
  next
    case opened: (Some img)
    let ?np = "image_path output_dir cid cname i (lower (format_name img))"
    have "lower (format_name img) \<noteq> ''jpg''" using nj opened by blast
    then have ne: "?np \<noteq> ?op" using image_path_inject [of output_dir cid cname i _ i "''jpg''"] by blast
    have np: "fs ?np = None" using free by simp
    have moved: "((fs(?op \<mapsto> b))(?np \<mapsto> c))(?op := None) = fs(?np \<mapsto> c)" for b c
      using op ne by (auto simp: fun_eq_iff)
    have removed: "(fs(?np \<mapsto> c))(?np := None) = fs" for c
      using np by (auto simp: fun_eq_iff)
    show ?thesis
    proof (cases "passes w url")
      case True
      show ?thesis
      proof (cases "format_name img = ''jpeg''")
        case jpeg: True
        have "download_one w output_dir cid cname i url fs = (fs(?op \<mapsto> body r), Some ?op)"
          using True get opened jpeg
          by (simp add: passes_def download_one_def Let_def image_path_def [symmetric] not_less)
        then show ?thesis using True by blast
      next
        case other: False
        then obtain bytes where bytes: "img_save img = Some bytes"
          using True get opened by (auto simp: passes_def)
        have "download_one w output_dir cid cname i url fs = (fs(?np \<mapsto> bytes), Some ?np)"
          using True get opened other bytes moved
          by (simp add: passes_def download_one_def Let_def image_path_def [symmetric] not_less)
        then show ?thesis using True by blast
      qed
    next
      case False
      have "download_one w output_dir cid cname i url fs = (fs, None)"
        using False get opened r undo moved removed
        by (auto simp: passes_def download_one_def Let_def image_path_def [symmetric] not_less
            split: option.splits)
      then show ?thesis using False by simp
    qed
  qed
qed

lemma download_loop_clean:
  assumes "\<forall>url\<in>set urls. \<forall>r. requests_get w url = Some r \<longrightarrow> \<not> stream_raises r"
    and "\<forall>b img. image_open w b = Some img \<longrightarrow> lower (format_name img) \<noteq> ''jpg''"
    and "\<forall>j ext. i \<le> j \<longrightarrow> fs (image_path output_dir cid cname j ext) = None"
  shows "\<exists>fs' new. download_loop w output_dir cid cname i urls (fs, acc) = (fs', acc @ new)
           \<and> dom fs' = dom fs \<union> set new \<and> distinct new
           \<and> length new = length (filter (passes w) urls)
           \<and> (\<forall>p\<in>set new. \<exists>j ext. i \<le> j \<and> p = image_path output_dir cid cname j ext)"
  using assms
proof (induction urls arbitrary: i fs acc)
  case Nil
  then show ?case by simp
next
  case (Cons url urls)
  have ns: "\<forall>r. requests_get w url = Some r \<longrightarrow> \<not> stream_raises r"
    and ns': "\<forall>url\<in>set urls. \<forall>r. requests_get w url = Some r \<longrightarrow> \<not> stream_raises r"
    using Cons.prems(1) by simp_all
  have free: "\<forall>ext. fs (image_path output_dir cid cname i ext) = None"
    using Cons.prems(3) by simp
  note one = download_one_clean [OF ns Cons.prems(2) free]
  show ?case
  proof (cases "passes w url")
    case False
    then have d: "download_one w output_dir cid cname i url fs = (fs, None)" using one by simp
    have "\<forall>j ext. Suc i \<le> j \<longrightarrow> fs (image_path output_dir cid cname j ext) = None"
      using Cons.prems(3) by simp
    from Cons.IH [OF ns' Cons.prems(2) this, of acc]
    obtain fs' new where loop:
      "download_loop w output_dir cid cname (Suc i) urls (fs, acc) = (fs', acc @ new)"
      and rest: "dom fs' = dom fs \<union> set new" "distinct new"
      and len: "length new = length (filter (passes w) urls)"
      and later: "\<forall>p\<in>set new. \<exists>j ext. Suc i \<le> j \<and> p = image_path output_dir cid cname j ext"
      by blast
    have "download_loop w output_dir cid cname i (url # urls) (fs, acc) = (fs', acc @ new)"
      using d loop by simp
    moreover have "length new = length (filter (passes w) (url # urls))"
      using len False by simp
    moreover have "\<forall>p\<in>set new. \<exists>j ext. i \<le> j \<and> p = image_path output_dir cid cname j ext"
      using later by (meson Suc_leD)
    ultimately show ?thesis using rest by blast
  next
    case True
    then obtain ext bytes where
      d: "download_one w output_dir cid cname i url fs
            = (fs(image_path output_dir cid cname i ext \<mapsto> bytes),
               Some (image_path output_dir cid cname i ext))"
      using one by blast
    let ?p = "image_path output_dir cid cname i ext"
    have "\<forall>j e. Suc i \<le> j \<longrightarrow> (fs(?p \<mapsto> bytes)) (image_path output_dir cid cname j e) = None"
    proof (intro allI impI)
      fix j e
      assume "Suc i \<le> j"
      then have "image_path output_dir cid cname j e \<noteq> ?p"
        using image_path_inject [of output_dir cid cname j e i ext] by auto
      then show "(fs(?p \<mapsto> bytes)) (image_path output_dir cid cname j e) = None"
        using Cons.prems(3) \<open>Suc i \<le> j\<close> by simp
    qed
    from Cons.IH [OF ns' Cons.prems(2) this, of "acc @ [?p]"]
    obtain fs' new where loop:
      "download_loop w output_dir cid cname (Suc i) urls (fs(?p \<mapsto> bytes), acc @ [?p])
         = (fs', (acc @ [?p]) @ new)"
      and dom: "dom fs' = dom (fs(?p \<mapsto> bytes)) \<union> set new"
      and dist: "distinct new"
      and len: "length new = length (filter (passes w) urls)"
      and later: "\<forall>p\<in>set new. \<exists>j e. Suc i \<le> j \<and> p = image_path output_dir cid cname j e"
      by blast
    have fresh: "?p \<notin> set new"
    proof
      assume "?p \<in> set new"
      then obtain j e where "Suc i \<le> j" "?p = image_path output_dir cid cname j e"
        using later by blast
      then show False using image_path_inject [of output_dir cid cname i ext j e] by auto
    qed
    have "download_loop w output_dir cid cname i (url # urls) (fs, acc) = (fs', acc @ (?p # new))"
      using d loop by simp
    moreover have "dom fs' = dom fs \<union> set (?p # new)" using dom by auto
    moreover have "distinct (?p # new)" using dist fresh by simp
    moreover have "length (?p # new) = length (filter (passes w) (url # urls))"
      using len True by simp
    moreover have "\<forall>p\<in>set (?p # new). \<exists>j e. i \<le> j \<and> p = image_path output_dir cid cname j e"
    proof
      fix p
      assume "p \<in> set (?p # new)"
      then consider "p = ?p" | "p \<in> set new" by auto
      then show "\<exists>j e. i \<le> j \<and> p = image_path output_dir cid cname j e"
      proof cases
        case 1
        then show ?thesis by blast
      next
        case 2
        then show ?thesis using later by (meson Suc_leD)
      qed
    qed
    ultimately show ?thesis by blast
  qed
qed

text \<open>
  When no body stream fails (and the decoder names no format \<open>jpg\<close>, whose file would
  take the provisional path), a batch that starts without image files of the entity
  leaves exactly the returned paths behind, one for each URL that passes every step.
\<close>

lemma download_images_clean:
  assumes "\<forall>url\<in>set urls. \<forall>r. requests_get w url = Some r \<longrightarrow> \<not> stream_raises r"
    and "\<forall>b img. image_open w b = Some img \<longrightarrow> lower (format_name img) \<noteq> ''jpg''"
    and "\<forall>j ext. fs (image_path output_dir cid cname j ext) = None"
  shows "dom (fst (download_images w urls output_dir cid cname fs))
           = dom fs \<union> set (snd (download_images w urls output_dir cid cname fs))
         \<and> distinct (snd (download_images w urls output_dir cid cname fs))
         \<and> length (snd (download_images w urls output_dir cid cname fs))
             = length (filter (passes w) urls)"
proof -
  have "\<forall>j ext. 0 \<le> j \<longrightarrow> fs (image_path output_dir cid cname j ext) = None"
    using assms(3) by simp
  from download_loop_clean [OF assms(1,2) this, of "[]"]
  obtain fs' new where "download_loop w output_dir cid cname 0 urls (fs, []) = (fs', new)"
    and "dom fs' = dom fs \<union> set new" and "distinct new"
    and "length new = length (filter (passes w) urls)"
    by auto
  then show ?thesis by (simp add: download_images_def)
qed

text \<open>
  C1 does not hold on the code. When the connection drops while the body is streamed,
  the file has already been opened and the exception reaches the outer handler, which
  removes nothing: the batch returns no path for the URL, and the partial file is on
  disk.
\<close>

theorem download_images_leaves_partial_file:
  "snd (download_images dropped_connection [''http://a.org/1.jpg''] ''out'' ''12'' ''Wakanda''
          Map.empty) = []
   \<and> fst (download_images dropped_connection [''http://a.org/1.jpg''] ''out'' ''12'' ''Wakanda''
          Map.empty) ''out/12_Wakanda_001.jpg'' = Some ''partial''"
  by (simp add: download_images_def download_one_def dropped_connection_def raise_for_status_def
      filename_example Let_def)

section \<open>Properties of the orchestrator\<close>



lemma keep_example: "keep_url ''https://example.com/a.jpg''"
  by code_simp

lemma filter_example:
  "filter_image_urls {''https://example.com/a.jpg''} = {''https://example.com/a.jpg''}"
  using keep_example by (auto simp: filter_image_urls_def)

lemma example_names:
  "sanitize_filename ''Wakanda'' = ''Wakanda''" "sanitize_filename ''Atlantis'' = ''Atlantis''"
  "format_03d (Suc 0) = ''001''" "lower ''JPEG'' = ''jpeg''"
  by code_simp+

lemma quiet_wakanda:
  "download_images_for_country example_options quiet_session ''images'' ''Wakanda'' ''12'' fs
     = (fs(''images/12_Wakanda/12_Wakanda_001.jpg'' \<mapsto> ''bytes''), Inr 1)"
  by (simp add: download_images_for_country_def quiet_session_def example_options_def good_web_def
      filter_example limit_images_def download_images_def download_one_def raise_for_status_def
      path_join_def image_filename_def format_name_def example_names Let_def)












end
